theory Spec2Isabelle
  imports Complex_Main
begin

section \<open>Python numbers and exceptions\<close>

text \<open>
  The \<open>data\<close> and \<open>grad\<close> attributes of a \<open>Value\<close> hold Python numbers. They are
  doubles, as the specification has them ("all arithmetic is double-precision; no integer
  node type exists"); a double, and an \<open>int\<close> used in its place, is represented by the
  real number it denotes. \<open>complex\<close> is kept apart because the source's \<open>**\<close> can produce
  it and because \<open>>\<close>, \<open>max\<close> and \<open>math.exp\<close> reject it.

  Outside this model: rounding, the sign of zero, infinities and NaN (which \<open>+\<close> and \<open>*\<close>
  produce without raising), and the exact, unbounded arithmetic Python uses when both
  operands are \<open>int\<close>. Where Python raises \<open>OverflowError\<close> (\<open>**\<close> and \<open>math.exp\<close>), the
  model raises it when the exact result is beyond the largest double.
\<close>

datatype pynum = PFloat real | PComplex complex

datatype error = ZeroDivisionError | OverflowError | TypeError | RecursionError


fun to_complex :: "pynum \<Rightarrow> complex" where
  "to_complex (PFloat a) = complex_of_real a"
| "to_complex (PComplex z) = z"

text \<open>\<open>a + b\<close>, \<open>a * b\<close>, \<open>a - b\<close> on numbers: a float meeting a complex is widened.\<close>

fun py_add :: "pynum \<Rightarrow> pynum \<Rightarrow> pynum" where
  "py_add (PFloat a) (PFloat b) = PFloat (a + b)"
| "py_add a b = PComplex (to_complex a + to_complex b)"

fun py_mul :: "pynum \<Rightarrow> pynum \<Rightarrow> pynum" where
  "py_mul (PFloat a) (PFloat b) = PFloat (a * b)"
| "py_mul a b = PComplex (to_complex a * to_complex b)"

fun py_sub :: "pynum \<Rightarrow> pynum \<Rightarrow> pynum" where
  "py_sub (PFloat a) (PFloat b) = PFloat (a - b)"
| "py_sub a b = PComplex (to_complex a - to_complex b)"

text \<open>\<open>sys.float_info.max\<close>: the largest double, \<open>(2 - 2 ** -52) * 2 ** 1023\<close>.\<close>

definition float_max :: real where
  "float_max = (2 ^ 53 - 1) * 2 ^ 971"

text \<open>
  \<open>x ** p\<close> for a real base outside the two special cases below: an integral exponent
  is repeated multiplication (or its reciprocal), any other exponent needs \<open>x > 0\<close> or
  \<open>x = 0 < p\<close>.
\<close>

definition float_pow :: "real \<Rightarrow> real \<Rightarrow> real" where
  "float_pow x p = (if p \<in> \<int> then x powi \<lfloor>p\<rfloor> else x powr p)"

text \<open>
  \<open>z ** p\<close> for a nonzero complex base: modulus \<open>|z| ** p\<close>, phase
  \<open>atan2(z.imag, z.real) * p\<close>. It raises \<open>OverflowError\<close> when a component of the result
  is infinite, which is when the modulus is.
\<close>

definition complex_pow :: "complex \<Rightarrow> real \<Rightarrow> error + pynum" where
  "complex_pow z p =
     (if float_max < cmod z powr p then Inl OverflowError
      else Inr (PComplex (rcis (cmod z powr p) (Arg z * p))))"

text \<open>
  \<open>base ** p\<close> with a real exponent, as Python 3 evaluates it (the source uses
  f-strings, hence Python 3): a zero base with a negative exponent raises
  \<open>ZeroDivisionError\<close>; a negative float base with a non-integral exponent is handed to
  the complex power and returns a complex number; a result out of range raises
  \<open>OverflowError\<close>.
\<close>

fun py_pow :: "pynum \<Rightarrow> real \<Rightarrow> error + pynum" where
  "py_pow (PFloat x) p =
     (if x = 0 \<and> p < 0 then Inl ZeroDivisionError
      else if x < 0 \<and> p \<notin> \<int> then complex_pow (complex_of_real x) p
      else if float_max < \<bar>float_pow x p\<bar> then Inl OverflowError
      else Inr (PFloat (float_pow x p)))"
| "py_pow (PComplex z) p =
     (if p = 0 then Inr (PComplex 1)
      else if z = 0 then (if p < 0 then Inl ZeroDivisionError else Inr (PComplex 0))
      else complex_pow z p)"

text \<open>\<open>a > 0\<close>: complex numbers are not ordered.\<close>

fun py_gt_zero :: "pynum \<Rightarrow> error + bool" where
  "py_gt_zero (PFloat a) = Inr (a > 0)"
| "py_gt_zero (PComplex z) = Inl TypeError"

text \<open>\<open>max(0, a)\<close> returns \<open>a\<close> when \<open>a > 0\<close> and the first argument otherwise.\<close>

fun py_max_zero :: "pynum \<Rightarrow> error + pynum" where
  "py_max_zero (PFloat a) = Inr (PFloat (max 0 a))"
| "py_max_zero (PComplex z) = Inl TypeError"

text \<open>
  \<open>math.exp(a)\<close> accepts only what converts to a float, and raises \<open>OverflowError\<close> when
  the result is out of range.
\<close>

fun math_exp :: "pynum \<Rightarrow> error + real" where
  "math_exp (PFloat a) = (if float_max < exp a then Inl OverflowError else Inr (exp a))"
| "math_exp (PComplex z) = Inl TypeError"

section \<open>The Value class\<close>

text \<open>
  Objects live in a heap, a list of \<open>Value\<close> records; a reference is an index into it
  and \<open>Value(...)\<close> appends. The closure stored in \<open>_backward\<close> is represented by the
  operation it was defined in together with the variables it captured (\<open>self\<close>,
  \<open>other\<close>); the captured \<open>out\<close> is the node that owns the closure. The fields \<open>_prev\<close>,
  \<open>_op\<close> and \<open>_backward\<close> are written \<open>prev\<close>, \<open>op\<close> and \<open>local_backward\<close>.

  \<open>_prev\<close> is a Python \<open>set\<close>: it holds each child once. It is a duplicate-free list
  here, the order of the list being the order in which \<open>for child in v._prev\<close> yields
  the elements; Python leaves that order open, and the theorems on the traversal
  hold for every heap whose \<open>prev\<close> lists are duplicate-free, hence for every order.
\<close>

datatype closure =
    NoneBw
  | AddBw nat nat
  | MulBw nat nat
  | PowBw nat real
  | ExpBw nat
  | TanhBw nat
  | ReluBw nat

record Value =
  data :: pynum
  grad :: pynum
  prev :: "nat list"
  op :: string
  local_backward :: closure
  label :: string

type_synonym heap = "Value list"

text \<open>
  A call returns the heap it leaves behind and either the exception it raised or its
  result.
\<close>

type_synonym 'a result = "heap \<times> (error + 'a)"

text \<open>
  \<open>Value.__init__(data, _children, _op)\<close>, with \<open>label\<close> at its default \<open>''\<close>, as
  every call inside the class has it; \<open>set(_children)\<close> drops the duplicates.
\<close>

definition Value_init :: "pynum \<Rightarrow> nat list \<Rightarrow> string \<Rightarrow> Value" where
  "Value_init d children opn =
     \<lparr>data = d, grad = PFloat 0, prev = remdups children, op = opn,
      local_backward = NoneBw, label = ''''\<rparr>"

text \<open>The new object takes the next free place of the heap.\<close>

definition alloc :: "heap \<Rightarrow> Value \<Rightarrow> heap \<times> nat" where
  "alloc g v = (g @ [v], length g)"

text \<open>\<open>Value(data, label=lbl)\<close>: a leaf.\<close>

definition Value_new :: "heap \<Rightarrow> pynum \<Rightarrow> string \<Rightarrow> heap \<times> nat" where
  "Value_new g d lbl = alloc g ((Value_init d [] '''')\<lparr>label := lbl\<rparr>)"

text \<open>An operand of an operator is a \<open>Value\<close> or a plain Python number.\<close>

datatype operand = Node nat | Raw real

text \<open>\<open>other = other if isinstance(other, Value) else Value(other)\<close>\<close>

fun promote :: "heap \<Rightarrow> operand \<Rightarrow> heap \<times> nat" where
  "promote g (Node b) = (g, b)"
| "promote g (Raw c) = alloc g (Value_init (PFloat c) [] '''')"

definition Value_add :: "heap \<Rightarrow> nat \<Rightarrow> operand \<Rightarrow> heap \<times> nat" where
  "Value_add g self other =
     (let (g1, other') = promote g other;
          out = Value_init (py_add (data (g1 ! self)) (data (g1 ! other'))) [self, other'] ''+''
      in alloc g1 (out\<lparr>local_backward := AddBw self other'\<rparr>))"

definition Value_mul :: "heap \<Rightarrow> nat \<Rightarrow> operand \<Rightarrow> heap \<times> nat" where
  "Value_mul g self other =
     (let (g1, other') = promote g other;
          out = Value_init (py_mul (data (g1 ! self)) (data (g1 ! other'))) [self, other'] ''*''
      in alloc g1 (out\<lparr>local_backward := MulBw self other'\<rparr>))"

text \<open>\<open>__neg__\<close>: \<open>self * -1\<close>\<close>

definition Value_neg :: "heap \<Rightarrow> nat \<Rightarrow> heap \<times> nat" where
  "Value_neg g self = Value_mul g self (Raw (- 1))"

text \<open>
  \<open>__sub__\<close>: \<open>self + (-other)\<close>. The unary minus is \<open>Value.__neg__\<close> on a node and the
  number's own negation on a plain number.
\<close>

fun Value_sub :: "heap \<Rightarrow> nat \<Rightarrow> operand \<Rightarrow> heap \<times> nat" where
  "Value_sub g self (Node b) = (let (g1, nb) = Value_neg g b in Value_add g1 self (Node nb))"
| "Value_sub g self (Raw c) = Value_add g self (Raw (- c))"

text \<open>
  \<open>__pow__\<close>: the argument \<open>self.data**other\<close> is evaluated before \<open>Value\<close> is called, so
  an exception leaves the heap as it was.
\<close>

definition Value_pow :: "heap \<Rightarrow> nat \<Rightarrow> real \<Rightarrow> nat result" where
  "Value_pow g self other =
     (case py_pow (data (g ! self)) other of
        Inl e \<Rightarrow> (g, Inl e)
      | Inr d \<Rightarrow>
          (let out = Value_init d [self] ''pow'';
               (g1, r) = alloc g (out\<lparr>local_backward := PowBw self other\<rparr>)
           in (g1, Inr r)))"

text \<open>
  \<open>__truediv__\<close>: \<open>self * (other ** -1)\<close>. For a node, \<open>other ** -1\<close> is
  \<open>Value.__pow__\<close>; for a plain number it is the number's own power.
\<close>

fun Value_truediv :: "heap \<Rightarrow> nat \<Rightarrow> operand \<Rightarrow> nat result" where
  "Value_truediv g self (Node b) =
     (case Value_pow g b (- 1) of
        (g1, Inl e) \<Rightarrow> (g1, Inl e)
      | (g1, Inr pb) \<Rightarrow> (let (g2, r) = Value_mul g1 self (Node pb) in (g2, Inr r)))"
| "Value_truediv g self (Raw c) =
     (if c = 0 then (g, Inl ZeroDivisionError)
      else if float_max < \<bar>float_pow c (- 1)\<bar> then (g, Inl OverflowError)
      else (let (g1, r) = Value_mul g self (Raw (float_pow c (- 1))) in (g1, Inr r)))"

definition Value_radd :: "heap \<Rightarrow> nat \<Rightarrow> real \<Rightarrow> heap \<times> nat" where
  "Value_radd g self other = Value_add g self (Raw other)"

definition Value_rmul :: "heap \<Rightarrow> nat \<Rightarrow> real \<Rightarrow> heap \<times> nat" where
  "Value_rmul g self other = Value_mul g self (Raw other)"

text \<open>
  \<open>__rtruediv__\<close>: \<open>other * (self ** -1)\<close>, where \<open>other\<close> is the plain number on the
  left; the product of a number and a node is \<open>Value.__rmul__\<close>.
\<close>

definition Value_rtruediv :: "heap \<Rightarrow> nat \<Rightarrow> real \<Rightarrow> nat result" where
  "Value_rtruediv g self other =
     (case Value_pow g self (- 1) of
        (g1, Inl e) \<Rightarrow> (g1, Inl e)
      | (g1, Inr ps) \<Rightarrow> (let (g2, r) = Value_rmul g1 ps other in (g2, Inr r)))"

definition Value_exp :: "heap \<Rightarrow> nat \<Rightarrow> nat result" where
  "Value_exp g self =
     (case math_exp (data (g ! self)) of
        Inl e \<Rightarrow> (g, Inl e)
      | Inr d \<Rightarrow>
          (let out = Value_init (PFloat d) [self] ''exp'';
               (g1, r) = alloc g (out\<lparr>local_backward := ExpBw self\<rparr>)
           in (g1, Inr r)))"

text \<open>
  \<open>tanh\<close>: \<open>(math.exp(2*x)-1)/(math.exp(2*x)+1)\<close>; the denominator is positive, so the
  division cannot raise.
\<close>

definition Value_tanh :: "heap \<Rightarrow> nat \<Rightarrow> nat result" where
  "Value_tanh g self =
     (let x = data (g ! self) in
      case math_exp (py_mul (PFloat 2) x) of
        Inl e \<Rightarrow> (g, Inl e)
      | Inr e2x \<Rightarrow>
          (let out = Value_init (PFloat ((e2x - 1) / (e2x + 1))) [self] ''tanh'';
               (g1, r) = alloc g (out\<lparr>local_backward := TanhBw self\<rparr>)
           in (g1, Inr r)))"

definition Value_relu :: "heap \<Rightarrow> nat \<Rightarrow> nat result" where
  "Value_relu g self =
     (case py_max_zero (data (g ! self)) of
        Inl e \<Rightarrow> (g, Inl e)
      | Inr d \<Rightarrow>
          (let out = Value_init d [self] ''relu'';
               (g1, r) = alloc g (out\<lparr>local_backward := ReluBw self\<rparr>)
           in (g1, Inr r)))"

subsection \<open>Operator dispatch\<close>

text \<open>
  \<open>x - y\<close> calls \<open>x.__sub__(y)\<close>; when \<open>x\<close> is a plain number that returns
  \<open>NotImplemented\<close> for a \<open>Value\<close>, and Python turns to the reflected method of \<open>y\<close>.
  \<open>Value\<close> defines \<open>__radd__\<close>, \<open>__rmul__\<close> and \<open>__rtruediv__\<close>, and no \<open>__rsub__\<close>.
\<close>

fun binop_add :: "heap \<Rightarrow> operand \<Rightarrow> operand \<Rightarrow> operand result" where
  "binop_add g (Node a) y = (let (g1, r) = Value_add g a y in (g1, Inr (Node r)))"
| "binop_add g (Raw c) (Node b) = (let (g1, r) = Value_radd g b c in (g1, Inr (Node r)))"
| "binop_add g (Raw c) (Raw d) = (g, Inr (Raw (c + d)))"

fun binop_mul :: "heap \<Rightarrow> operand \<Rightarrow> operand \<Rightarrow> operand result" where
  "binop_mul g (Node a) y = (let (g1, r) = Value_mul g a y in (g1, Inr (Node r)))"
| "binop_mul g (Raw c) (Node b) = (let (g1, r) = Value_rmul g b c in (g1, Inr (Node r)))"
| "binop_mul g (Raw c) (Raw d) = (g, Inr (Raw (c * d)))"

fun binop_sub :: "heap \<Rightarrow> operand \<Rightarrow> operand \<Rightarrow> operand result" where
  "binop_sub g (Node a) y = (let (g1, r) = Value_sub g a y in (g1, Inr (Node r)))"
| "binop_sub g (Raw c) (Node b) = (g, Inl TypeError)"
| "binop_sub g (Raw c) (Raw d) = (g, Inr (Raw (c - d)))"

fun binop_truediv :: "heap \<Rightarrow> operand \<Rightarrow> operand \<Rightarrow> operand result" where
  "binop_truediv g (Node a) y =
     (case Value_truediv g a y of (g1, Inl e) \<Rightarrow> (g1, Inl e) | (g1, Inr r) \<Rightarrow> (g1, Inr (Node r)))"
| "binop_truediv g (Raw c) (Node b) =
     (case Value_rtruediv g b c of (g1, Inl e) \<Rightarrow> (g1, Inl e) | (g1, Inr r) \<Rightarrow> (g1, Inr (Node r)))"
| "binop_truediv g (Raw c) (Raw d) =
     (if d = 0 then (g, Inl ZeroDivisionError) else (g, Inr (Raw (c / d))))"

section \<open>The backward pass\<close>

text \<open>\<open>n.grad += d\<close>\<close>

definition grad_add :: "heap \<Rightarrow> nat \<Rightarrow> pynum \<Rightarrow> heap" where
  "grad_add g n d = g[n := (g ! n)\<lparr>grad := py_add (grad (g ! n)) d\<rparr>]"

text \<open>
  \<open>node._backward()\<close>: the body of the closure, statement by statement. The right-hand
  side of each \<open>+=\<close> is evaluated before the store, so an exception in it leaves the
  heap as it was.
\<close>

definition call_backward :: "heap \<Rightarrow> nat \<Rightarrow> unit result" where
  "call_backward g out =
     (case local_backward (g ! out) of
        NoneBw \<Rightarrow> (g, Inr ())
      | AddBw self other \<Rightarrow>
          (let g1 = grad_add g self (py_mul (PFloat 1) (grad (g ! out)));
               g2 = grad_add g1 other (py_mul (PFloat 1) (grad (g1 ! out)))
           in (g2, Inr ()))
      | MulBw self other \<Rightarrow>
          (let g1 = grad_add g self (py_mul (grad (g ! out)) (data (g ! other)));
               g2 = grad_add g1 other (py_mul (grad (g1 ! out)) (data (g1 ! self)))
           in (g2, Inr ()))
      | PowBw self other \<Rightarrow>
          (case py_pow (data (g ! self)) (other - 1) of
             Inl e \<Rightarrow> (g, Inl e)
           | Inr v \<Rightarrow>
               (grad_add g self (py_mul (grad (g ! out)) (py_mul (PFloat other) v)), Inr ()))
      | ExpBw self \<Rightarrow>
          (grad_add g self (py_mul (grad (g ! out)) (data (g ! out))), Inr ())
      | TanhBw self \<Rightarrow>
          (case py_pow (data (g ! out)) 2 of
             Inl e \<Rightarrow> (g, Inl e)
           | Inr v \<Rightarrow>
               (grad_add g self (py_mul (grad (g ! out)) (py_sub (PFloat 1) v)), Inr ()))
      | ReluBw self \<Rightarrow>
          (case py_gt_zero (data (g ! self)) of
             Inl e \<Rightarrow> (g, Inl e)
           | Inr b \<Rightarrow>
               (grad_add g self (if b then grad (g ! out) else PFloat 0), Inr ())))"

text \<open>
  The locals \<open>visited\<close> and \<open>topo\<close> of \<open>backward\<close>, which the nested function
  \<open>build_topo\<close> updates.
\<close>

record locals =
  visited :: "nat set"
  topo :: "nat list"

text \<open>
  \<open>for child in v._prev: if child not in visited: build_topo(child)\<close>, the recursive
  call being the parameter \<open>visit\<close>.
\<close>

fun for_children :: "(nat \<Rightarrow> locals \<Rightarrow> error + locals) \<Rightarrow> nat list \<Rightarrow> locals \<Rightarrow> error + locals" where
  "for_children visit [] s = Inr s"
| "for_children visit (child # rest) s =
     (if child \<notin> visited s
      then (case visit child s of Inl e \<Rightarrow> Inl e | Inr s' \<Rightarrow> for_children visit rest s')
      else for_children visit rest s)"

text \<open>
  \<open>build_topo(v)\<close>. The first argument is the number of nested calls the interpreter
  still allows (Python's recursion limit): a call with none left raises
  \<open>RecursionError\<close>.
\<close>

primrec build_topo :: "nat \<Rightarrow> heap \<Rightarrow> nat \<Rightarrow> locals \<Rightarrow> error + locals" where
  "build_topo 0 g v s = Inl RecursionError"
| "build_topo (Suc depth) g v s =
     (if v \<notin> visited s
      then (case for_children (build_topo depth g) (prev (g ! v)) (s\<lparr>visited := insert v (visited s)\<rparr>) of
              Inl e \<Rightarrow> Inl e
            | Inr s' \<Rightarrow> Inr (s'\<lparr>topo := topo s' @ [v]\<rparr>))
      else Inr s)"

text \<open>\<open>for node in reversed(topo): node._backward()\<close>, given the reversed list.\<close>

fun run_backward :: "nat list \<Rightarrow> heap \<Rightarrow> unit result" where
  "run_backward [] g = (g, Inr ())"
| "run_backward (node # rest) g =
     (case call_backward g node of
        (g1, Inl e) \<Rightarrow> (g1, Inl e)
      | (g1, Inr u) \<Rightarrow> run_backward rest g1)"

text \<open>The list \<open>topo\<close> after \<open>build_topo(self)\<close>.\<close>

definition topo_order :: "nat \<Rightarrow> heap \<Rightarrow> nat \<Rightarrow> error + nat list" where
  "topo_order limit g self =
     (case build_topo limit g self \<lparr>visited = {}, topo = []\<rparr> of
        Inl e \<Rightarrow> Inl e
      | Inr s \<Rightarrow> Inr (topo s))"

text \<open>\<open>self.grad = 1.0\<close>\<close>

definition seed :: "heap \<Rightarrow> nat \<Rightarrow> heap" where
  "seed g self = g[self := (g ! self)\<lparr>grad := PFloat 1\<rparr>]"

definition Value_backward :: "nat \<Rightarrow> heap \<Rightarrow> nat \<Rightarrow> unit result" where
  "Value_backward limit g self =
     (case topo_order limit g self of
        Inl e \<Rightarrow> (g, Inl e)
      | Inr t \<Rightarrow> run_backward (rev t) (seed g self))"

section \<open>Graph structure\<close>

text \<open>The nodes whose \<open>grad\<close> a closure writes: the variables it captured.\<close>

fun captured :: "closure \<Rightarrow> nat set" where
  "captured NoneBw = {}"
| "captured (AddBw self other) = {self, other}"
| "captured (MulBw self other) = {self, other}"
| "captured (PowBw self p) = {self}"
| "captured (ExpBw self) = {self}"
| "captured (TanhBw self) = {self}"
| "captured (ReluBw self) = {self}"

text \<open>
  Heaps built by the operations alone: every node was constructed after its children
  (so a child's index is below its parent's), \<open>_prev\<close> holds no duplicates, and a
  closure captures only children of its node.
\<close>

definition well_formed :: "heap \<Rightarrow> bool" where
  "well_formed g =
     (\<forall>i < length g. distinct (prev (g ! i)) \<and> (\<forall>c \<in> set (prev (g ! i)). c < i)
        \<and> captured (local_backward (g ! i)) \<subseteq> set (prev (g ! i)))"

text \<open>The operand relation and the nodes reachable from a root through it.\<close>

definition operand_rel :: "heap \<Rightarrow> (nat \<times> nat) set" where
  "operand_rel g = {(v, c). c \<in> set (prev (g ! v))}"

definition reachable :: "heap \<Rightarrow> nat \<Rightarrow> nat set" where
  "reachable g r = (operand_rel g)\<^sup>* `` {r}"

text \<open>
  A list of nodes is topologically sorted when it has no duplicates and every node
  comes after all of its children.
\<close>

definition topo_sorted :: "heap \<Rightarrow> nat list \<Rightarrow> bool" where
  "topo_sorted g t =
     (distinct t \<and> (\<forall>k < length t. set (prev (g ! (t ! k))) \<subseteq> set (take k t)))"

text \<open>
  The nodes whose \<open>build_topo\<close> call has started and not yet appended them, and the
  invariant and the effect of one call of \<open>build_topo\<close> on the locals.
\<close>

definition pending :: "locals \<Rightarrow> nat set" where
  "pending s = visited s - set (topo s)"

definition locals_inv :: "heap \<Rightarrow> locals \<Rightarrow> bool" where
  "locals_inv g s = (set (topo s) \<subseteq> visited s \<and> topo_sorted g (topo s))"

definition visit_post :: "heap \<Rightarrow> nat set \<Rightarrow> locals \<Rightarrow> locals \<Rightarrow> bool" where
  "visit_post g R s s' =
     (locals_inv g s' \<and> pending s' = pending s
      \<and> (\<exists>new. topo s' = topo s @ new \<and> set new \<subseteq> R))"

section \<open>An example\<close>

text \<open>
  \<open>x = Value(3.0, label='x'); y = x * x; z = y + x; c = Value(5.0, label='c')\<close>: the node
  \<open>x\<close> is shared, \<open>z\<close> is the root of the examples below, and \<open>c\<close> is not reachable
  from it.
\<close>

definition example_heap :: heap where
  "example_heap =
     (let (g1, x) = Value_new [] (PFloat 3) ''x'';
          (g2, y) = Value_mul g1 x (Node x);
          (g3, z) = Value_add g2 y (Node x);
          (g4, c) = Value_new g3 (PFloat 5) ''c''
      in g4)"

section \<open>The traversal\<close>

lemma reachable_self: "r \<in> reachable g r"
  by (simp add: reachable_def)

lemma reachable_child:
  "c \<in> set (prev (g ! v)) \<Longrightarrow> reachable g c \<subseteq> reachable g v"
  unfolding reachable_def operand_rel_def
  by (auto intro: converse_rtrancl_into_rtrancl)

lemma topo_sorted_snoc:
  assumes "topo_sorted g t" "v \<notin> set t" "set (prev (g ! v)) \<subseteq> set t"
  shows "topo_sorted g (t @ [v])"
  unfolding topo_sorted_def
proof (intro conjI allI impI)
  show "distinct (t @ [v])" using assms by (simp add: topo_sorted_def)
next
  fix k assume k: "k < length (t @ [v])"
  show "set (prev (g ! ((t @ [v]) ! k))) \<subseteq> set (take k (t @ [v]))"
  proof (cases "k < length t")
    case True
    then show ?thesis using assms(1) by (simp add: topo_sorted_def nth_append)
  next
    case False
    with k have "k = length t" by simp
    then show ?thesis using assms(3) by simp
  qed
qed

lemma for_children_correct:
  assumes visit_ok: "\<And>c s. c \<in> set cs \<Longrightarrow> locals_inv g s \<Longrightarrow> \<forall>u \<in> pending s. c < u \<Longrightarrow>
             \<exists>s'. visit c s = Inr s' \<and> visit_post g (reachable g c) s s' \<and> c \<in> set (topo s')"
    and "locals_inv g s"
    and "\<forall>c \<in> set cs. \<forall>u \<in> pending s. c < u"
  shows "\<exists>s'. for_children visit cs s = Inr s'
           \<and> visit_post g (\<Union>c \<in> set cs. reachable g c) s s' \<and> set cs \<subseteq> set (topo s')"
  using assms
proof (induction cs arbitrary: s)
  case Nil
  then show ?case by (simp add: visit_post_def)
next
  case (Cons c cs)
  have rest: "\<And>c' s. c' \<in> set cs \<Longrightarrow> locals_inv g s \<Longrightarrow> \<forall>u \<in> pending s. c' < u \<Longrightarrow>
             \<exists>s'. visit c' s = Inr s' \<and> visit_post g (reachable g c') s s' \<and> c' \<in> set (topo s')"
    using Cons.prems(1) by simp
  show ?case
  proof (cases "c \<in> visited s")
    case True
    have "c \<notin> pending s" using Cons.prems(3) by auto
    with True have cin: "c \<in> set (topo s)" by (simp add: pending_def)
    have "\<forall>c' \<in> set cs. \<forall>u \<in> pending s. c' < u" using Cons.prems(3) by simp
    from Cons.IH [OF rest Cons.prems(2) this]
    obtain s' where s': "for_children visit cs s = Inr s'"
        "visit_post g (\<Union>c \<in> set cs. reachable g c) s s'" "set cs \<subseteq> set (topo s')"
      by blast
    from s'(2) cin have "c \<in> set (topo s')" by (auto simp: visit_post_def)
    moreover from s'(2) have "visit_post g (\<Union>c \<in> set (c # cs). reachable g c) s s'"
      by (auto simp: visit_post_def)
    ultimately show ?thesis using True s' by simp
  next
    case False
    have "\<forall>u \<in> pending s. c < u" using Cons.prems(3) by simp
    from Cons.prems(1) [of c s, OF _ Cons.prems(2) this]
    obtain s1 where s1: "visit c s = Inr s1" "visit_post g (reachable g c) s s1" "c \<in> set (topo s1)"
      by auto
    have inv1: "locals_inv g s1" and pend1: "pending s1 = pending s"
      using s1(2) by (simp_all add: visit_post_def)
    have "\<forall>c' \<in> set cs. \<forall>u \<in> pending s1. c' < u" using Cons.prems(3) pend1 by simp
    from Cons.IH [OF rest inv1 this]
    obtain s' where s': "for_children visit cs s1 = Inr s'"
        "visit_post g (\<Union>c \<in> set cs. reachable g c) s1 s'" "set cs \<subseteq> set (topo s')"
      by blast
    from s1(2) s'(2) have "visit_post g (\<Union>c \<in> set (c # cs). reachable g c) s s'"
      by (auto simp: visit_post_def)
    moreover from s'(2) s1(3) have "c \<in> set (topo s')" by (auto simp: visit_post_def)
    ultimately show ?thesis using False s1(1) s' by simp
  qed
qed

lemma build_topo_correct:
  assumes wf: "well_formed g"
  shows "v < depth \<Longrightarrow> v < length g \<Longrightarrow> locals_inv g s \<Longrightarrow> \<forall>u \<in> pending s. v < u \<Longrightarrow>
         \<exists>s'. build_topo depth g v s = Inr s' \<and> visit_post g (reachable g v) s s'
              \<and> v \<in> set (topo s') \<and> (v \<notin> visited s \<longrightarrow> last (topo s') = v)"
proof (induction depth arbitrary: v s)
  case 0
  then show ?case by simp
next
  case (Suc depth)
  show ?case
  proof (cases "v \<in> visited s")
    case True
    have "v \<notin> pending s" using Suc.prems(4) by auto
    with True have "v \<in> set (topo s)" by (simp add: pending_def)
    with True Suc.prems(3) show ?thesis by (simp add: visit_post_def)
  next
    case False
    define s1 where "s1 = s\<lparr>visited := insert v (visited s)\<rparr>"
    have vt: "v \<notin> set (topo s)" using False Suc.prems(3) by (auto simp: locals_inv_def)
    have inv1: "locals_inv g s1" using Suc.prems(3) by (auto simp: locals_inv_def s1_def)
    have pend1: "pending s1 = insert v (pending s)"
      using vt by (auto simp: pending_def s1_def)
    have kids: "\<forall>c \<in> set (prev (g ! v)). c < v"
      using wf Suc.prems(2) by (simp add: well_formed_def)
    have stack: "\<forall>c \<in> set (prev (g ! v)). \<forall>u \<in> pending s1. c < u"
      using kids Suc.prems(4) pend1 by force
    have visit_ok: "\<exists>s'. build_topo depth g c s = Inr s' \<and> visit_post g (reachable g c) s s'
                      \<and> c \<in> set (topo s')"
      if "c \<in> set (prev (g ! v))" "locals_inv g s" "\<forall>u \<in> pending s. c < u" for c s
    proof -
      have "c < v" using kids that(1) by simp
      then have "c < depth" "c < length g" using Suc.prems(1,2) by simp_all
      from Suc.IH [OF this that(2,3)] show ?thesis by blast
    qed
    from for_children_correct [of "prev (g ! v)" g "build_topo depth g" s1, OF visit_ok inv1 stack]
    obtain s2 where s2: "for_children (build_topo depth g) (prev (g ! v)) s1 = Inr s2"
        "visit_post g (\<Union>c \<in> set (prev (g ! v)). reachable g c) s1 s2"
        "set (prev (g ! v)) \<subseteq> set (topo s2)"
      by blast
    define s' where "s' = s2\<lparr>topo := topo s2 @ [v]\<rparr>"
    have res: "build_topo (Suc depth) g v s = Inr s'"
      using False s2(1) by (simp add: s1_def s'_def)
    have inv2: "locals_inv g s2" and pend2: "pending s2 = insert v (pending s)"
      using s2(2) pend1 by (simp_all add: visit_post_def)
    from pend2 have v2: "v \<in> visited s2" "v \<notin> set (topo s2)"
      by (auto simp: pending_def)
    have inv': "locals_inv g s'"
      using inv2 v2 s2(3) by (simp add: locals_inv_def s'_def topo_sorted_snoc)
    have "v \<notin> pending s" using False by (simp add: pending_def)
    then have pend': "pending s' = pending s"
      using pend2 by (auto simp: pending_def s'_def)
    obtain new where new: "topo s2 = topo s @ new"
        "set new \<subseteq> (\<Union>c \<in> set (prev (g ! v)). reachable g c)"
      using s2(2) by (auto simp: visit_post_def s1_def)
    have "set new \<subseteq> reachable g v" using new(2) reachable_child by blast
    then have "topo s' = topo s @ (new @ [v]) \<and> set (new @ [v]) \<subseteq> reachable g v"
      using new(1) by (simp add: s'_def reachable_self)
    then have "visit_post g (reachable g v) s s'"
      using inv' pend' unfolding visit_post_def by blast
    then show ?thesis using res by (simp add: s'_def)
  qed
qed

lemma topo_sorted_closed:
  assumes "topo_sorted g t" "v \<in> set t" "c \<in> set (prev (g ! v))"
  shows "c \<in> set t"
proof -
  from assms(2) obtain k where "k < length t" "t ! k = v" by (auto simp: in_set_conv_nth)
  with assms(1,3) have "c \<in> set (take k t)" by (auto simp: topo_sorted_def)
  then show ?thesis by (rule in_set_takeD)
qed

lemma reachable_subset_topo:
  assumes "topo_sorted g t" "r \<in> set t"
  shows "reachable g r \<subseteq> set t"
proof
  fix n assume "n \<in> reachable g r"
  then have "(r, n) \<in> (operand_rel g)\<^sup>*" by (simp add: reachable_def)
  then show "n \<in> set t"
  proof (induction rule: rtrancl_induct)
    case base
    then show ?case by (rule assms(2))
  next
    case (step y z)
    then show ?case using topo_sorted_closed [OF assms(1)] by (simp add: operand_rel_def)
  qed
qed

lemma topo_order_correct:
  assumes "well_formed g" "self < length g" "self < limit"
  shows "\<exists>t. topo_order limit g self = Inr t \<and> topo_sorted g t \<and> set t = reachable g self
            \<and> last t = self \<and> t \<noteq> []"
proof -
  let ?s = "\<lparr>visited = {}, topo = []\<rparr>"
  have "locals_inv g ?s" by (simp add: locals_inv_def topo_sorted_def)
  moreover have "\<forall>u \<in> pending ?s. self < u" by (simp add: pending_def)
  ultimately obtain s' where s': "build_topo limit g self ?s = Inr s'"
      "visit_post g (reachable g self) ?s s'" "self \<in> set (topo s')" "last (topo s') = self"
    using build_topo_correct [OF assms(1,3,2), of ?s] by auto
  have ts: "topo_sorted g (topo s')" using s'(2) by (simp add: visit_post_def locals_inv_def)
  have "set (topo s') \<subseteq> reachable g self" using s'(2) by (auto simp: visit_post_def)
  with reachable_subset_topo [OF ts s'(3)] have "set (topo s') = reachable g self" by blast
  with s' ts show ?thesis by (auto simp: topo_order_def)
qed

lemma reachable_step:
  "m \<in> reachable g r \<Longrightarrow> c \<in> set (prev (g ! m)) \<Longrightarrow> c \<in> reachable g r"
  unfolding reachable_def operand_rel_def
  by (auto intro: rtrancl_into_rtrancl)

lemma reachable_le:
  assumes "well_formed g" "r < length g" "n \<in> reachable g r"
  shows "n \<le> r"
proof -
  from assms(3) have "(r, n) \<in> (operand_rel g)\<^sup>*" by (simp add: reachable_def)
  then show ?thesis
  proof (induction rule: rtrancl_induct)
    case base
    show ?case by simp
  next
    case (step y z)
    then have "y < length g" using assms(2) by simp
    with assms(1) step(2) have "z < y" by (simp add: well_formed_def operand_rel_def)
    with step(3) show ?case by simp
  qed
qed

lemma captured_reachable:
  assumes "well_formed g" "r < length g" "m \<in> reachable g r"
  shows "captured (local_backward (g ! m)) \<subseteq> set (prev (g ! m))"
proof -
  have "m < length g" using reachable_le [OF assms] assms(2) by simp
  with assms(1) show ?thesis by (simp add: well_formed_def)
qed

lemma not_captured_self:
  assumes "well_formed g" "m < length g" "m \<le> n"
  shows "n \<notin> captured (local_backward (g ! m))"
  using assms by (fastforce simp: well_formed_def)

lemma for_children_reachable:
  assumes "\<And>c s s'. c \<in> set cs \<Longrightarrow> visit c s = Inr s' \<Longrightarrow>
             \<exists>new. topo s' = topo s @ new \<and> set new \<subseteq> reachable g c"
    and "for_children visit cs s = Inr s'"
  shows "\<exists>new. topo s' = topo s @ new \<and> set new \<subseteq> (\<Union>c \<in> set cs. reachable g c)"
  using assms
proof (induction cs arbitrary: s)
  case Nil
  then show ?case by simp
next
  case (Cons c cs)
  have rest: "\<And>c' s s'. c' \<in> set cs \<Longrightarrow> visit c' s = Inr s' \<Longrightarrow>
             \<exists>new. topo s' = topo s @ new \<and> set new \<subseteq> reachable g c'"
    using Cons.prems(1) by simp
  show ?case
  proof (cases "c \<in> visited s")
    case True
    then have "for_children visit cs s = Inr s'" using Cons.prems(2) by simp
    from Cons.IH [OF rest this] show ?thesis by auto
  next
    case False
    then obtain s1 where s1: "visit c s = Inr s1" "for_children visit cs s1 = Inr s'"
      using Cons.prems(2) by (auto split: sum.splits)
    from Cons.prems(1) [of c s s1] s1(1)
    obtain n1 where n1: "topo s1 = topo s @ n1" "set n1 \<subseteq> reachable g c" by auto
    from Cons.IH [OF rest s1(2)]
    obtain n2 where n2: "topo s' = topo s1 @ n2" "set n2 \<subseteq> (\<Union>c \<in> set cs. reachable g c)" by auto
    have "topo s' = topo s @ (n1 @ n2)" using n1(1) n2(1) by simp
    moreover have "set (n1 @ n2) \<subseteq> (\<Union>c \<in> set (c # cs). reachable g c)"
      using n1(2) n2(2) by auto
    ultimately show ?thesis by blast
  qed
qed

lemma build_topo_reachable:
  "build_topo depth g v s = Inr s' \<Longrightarrow> \<exists>new. topo s' = topo s @ new \<and> set new \<subseteq> reachable g v"
proof (induction depth arbitrary: v s s')
  case 0
  then show ?case by simp
next
  case (Suc depth)
  show ?case
  proof (cases "v \<in> visited s")
    case True
    then show ?thesis using Suc.prems by simp
  next
    case False
    then obtain s2 where s2:
        "for_children (build_topo depth g) (prev (g ! v)) (s\<lparr>visited := insert v (visited s)\<rparr>) = Inr s2"
        "s' = s2\<lparr>topo := topo s2 @ [v]\<rparr>"
      using Suc.prems by (auto split: sum.splits)
    from for_children_reachable [of "prev (g ! v)" "build_topo depth g" g, OF Suc.IH s2(1)]
    obtain new where new: "topo s2 = topo s @ new"
        "set new \<subseteq> (\<Union>c \<in> set (prev (g ! v)). reachable g c)"
      by auto
    have "set new \<subseteq> reachable g v" using new(2) reachable_child by blast
    then have "topo s' = topo s @ (new @ [v]) \<and> set (new @ [v]) \<subseteq> reachable g v"
      using new(1) s2(2) by (simp add: reachable_self)
    then show ?thesis by blast
  qed
qed

lemma topo_order_reachable:
  "topo_order limit g self = Inr t \<Longrightarrow> set t \<subseteq> reachable g self"
  using build_topo_reachable [of limit g self "\<lparr>visited = {}, topo = []\<rparr>"]
  by (auto simp: topo_order_def split: sum.splits)

lemma for_children_cong_prev:
  assumes "\<And>c s. visit c s = visit' c s"
  shows "for_children visit cs s = for_children visit' cs s"
  by (induction cs arbitrary: s) (auto simp: assms split: sum.split)

lemma build_topo_prev_only:
  assumes "\<And>i. prev (g' ! i) = prev (g ! i)"
  shows "build_topo depth g' v s = build_topo depth g v s"
proof (induction depth arbitrary: v s)
  case 0
  show ?case by simp
next
  case (Suc depth)
  have "for_children (build_topo depth g') cs s1 = for_children (build_topo depth g) cs s1" for cs s1
    by (rule for_children_cong_prev) (rule Suc.IH)
  then show ?case by (simp add: assms)
qed

lemma topo_order_prev_only:
  assumes "\<And>i. prev (g' ! i) = prev (g ! i)"
  shows "topo_order limit g' self = topo_order limit g self"
  by (simp add: topo_order_def build_topo_prev_only [OF assms])

lemma topo_sorted_order:
  assumes "topo_sorted g t" "i < length t" "j < length t" "t ! i \<in> set (prev (g ! (t ! j)))"
  shows "i < j"
proof -
  from assms(1,3,4) have "t ! i \<in> set (take j t)" by (auto simp: topo_sorted_def)
  then obtain k where k: "k < j" "k < length t" "t ! k = t ! i"
    by (auto simp: in_set_conv_nth)
  have "distinct t" using assms(1) by (simp add: topo_sorted_def)
  with k(2,3) assms(2) have "k = i" by (simp add: nth_eq_iff_index_eq)
  with k(1) show ?thesis by simp
qed

section \<open>Arithmetic facts\<close>




lemma py_add_zero_right [simp]: "py_add x (PFloat 0) = x"
  by (cases x) simp_all

lemma py_add_zero_left [simp]: "py_add (PFloat 0) x = x"
  by (cases x) simp_all

lemma py_add_assoc: "py_add (py_add a b) c = py_add a (py_add b c)"
  by (cases a; cases b; cases c) simp_all

lemma py_add_self: "py_add d d = py_mul (PFloat 2) d"
  by (cases d) simp_all

lemma py_double:
  "py_add (py_mul (PFloat 1) d) (py_mul (PFloat 1) d) = py_mul (PFloat 2) d"
  by (cases d) simp_all

section \<open>What the gradient rules change\<close>

lemma nth_list_update_any:
  "g[n := x] ! i = (if i = n \<and> n < length g then x else g ! i)"
  by (cases "n < length g") (auto simp: list_update_beyond)

lemma length_grad_add [simp]: "length (grad_add g n d) = length g"
  by (simp add: grad_add_def)

lemma grad_add_fields [simp]:
  "data (grad_add g n d ! i) = data (g ! i)"
  "prev (grad_add g n d ! i) = prev (g ! i)"
  "op (grad_add g n d ! i) = op (g ! i)"
  "local_backward (grad_add g n d ! i) = local_backward (g ! i)"
  "label (grad_add g n d ! i) = label (g ! i)"
  by (simp_all add: grad_add_def nth_list_update_any)

lemma grad_add_other [simp]: "i \<noteq> n \<Longrightarrow> grad (grad_add g n d ! i) = grad (g ! i)"
  by (simp add: grad_add_def)

lemma grad_add_same: "n < length g \<Longrightarrow> grad (grad_add g n d ! n) = py_add (grad (g ! n)) d"
  by (simp add: grad_add_def)

lemma length_seed [simp]: "length (seed g r) = length g"
  by (simp add: seed_def)

lemma seed_fields [simp]:
  "data (seed g r ! i) = data (g ! i)"
  "prev (seed g r ! i) = prev (g ! i)"
  "op (seed g r ! i) = op (g ! i)"
  "local_backward (seed g r ! i) = local_backward (g ! i)"
  "label (seed g r ! i) = label (g ! i)"
  by (simp_all add: seed_def nth_list_update_any)

lemma seed_other [simp]: "i \<noteq> r \<Longrightarrow> grad (seed g r ! i) = grad (g ! i)"
  by (simp add: seed_def)

lemma seed_same: "r < length g \<Longrightarrow> grad (seed g r ! r) = PFloat 1"
  by (simp add: seed_def)

lemma call_backward_length [simp]: "length (fst (call_backward g out)) = length g"
  by (simp add: call_backward_def Let_def split: closure.split sum.split)

lemma call_backward_fields [simp]:
  "data (fst (call_backward g out) ! i) = data (g ! i)"
  "prev (fst (call_backward g out) ! i) = prev (g ! i)"
  "op (fst (call_backward g out) ! i) = op (g ! i)"
  "local_backward (fst (call_backward g out) ! i) = local_backward (g ! i)"
  "label (fst (call_backward g out) ! i) = label (g ! i)"
  by (simp_all add: call_backward_def Let_def split: closure.split sum.split)

lemma call_backward_grad_frame:
  "n \<notin> captured (local_backward (g ! out)) \<Longrightarrow> grad (fst (call_backward g out) ! n) = grad (g ! n)"
  by (auto simp add: call_backward_def Let_def split: closure.split sum.split)

lemma run_backward_Cons:
  "run_backward (n # ns) g =
     (case snd (call_backward g n) of Inl e \<Rightarrow> call_backward g n
      | Inr u \<Rightarrow> run_backward ns (fst (call_backward g n)))"
  by (cases "call_backward g n") (simp split: sum.split)

lemma run_backward_preserves:
  assumes "P g" and step: "\<And>h n. P h \<Longrightarrow> P (fst (call_backward h n))"
  shows "P (fst (run_backward ns g))"
  using assms(1)
proof (induction ns arbitrary: g)
  case Nil
  then show ?case by simp
next
  case (Cons n ns)
  then show ?case by (simp add: run_backward_Cons step del: run_backward.simps split: sum.split)
qed

lemma run_backward_length [simp]: "length (fst (run_backward ns g)) = length g"
  by (rule run_backward_preserves) simp_all

lemma run_backward_fields [simp]:
  "data (fst (run_backward ns g) ! i) = data (g ! i)"
  "prev (fst (run_backward ns g) ! i) = prev (g ! i)"
  "op (fst (run_backward ns g) ! i) = op (g ! i)"
  "local_backward (fst (run_backward ns g) ! i) = local_backward (g ! i)"
  "label (fst (run_backward ns g) ! i) = label (g ! i)"
  by (rule run_backward_preserves; simp)+

lemma run_backward_grad_frame:
  assumes "\<forall>m \<in> set ns. n \<notin> captured (local_backward (g ! m))"
  shows "grad (fst (run_backward ns g) ! n) = grad (g ! n)"
  using assms
proof (induction ns arbitrary: g)
  case Nil
  then show ?case by simp
next
  case (Cons m ns)
  let ?h = "fst (call_backward g m)"
  have 1: "grad (?h ! n) = grad (g ! n)" using Cons.prems by (simp add: call_backward_grad_frame)
  have "\<forall>m \<in> set ns. n \<notin> captured (local_backward (?h ! m))" using Cons.prems by simp
  from Cons.IH [OF this] 1 show ?case
    by (simp add: run_backward_Cons del: run_backward.simps split: sum.split)
qed

lemma run_backward_append:
  "run_backward (xs @ ys) g =
     (case snd (run_backward xs g) of Inl e \<Rightarrow> run_backward xs g
      | Inr u \<Rightarrow> run_backward ys (fst (run_backward xs g)))"
proof (induction xs arbitrary: g)
  case Nil
  then show ?case by simp
next
  case (Cons x xs)
  show ?case
    by (simp add: run_backward_Cons Cons.IH del: run_backward.simps split: sum.split)
qed

lemma Value_backward_fields [simp]:
  "data (fst (Value_backward limit g self) ! i) = data (g ! i)"
  "prev (fst (Value_backward limit g self) ! i) = prev (g ! i)"
  "op (fst (Value_backward limit g self) ! i) = op (g ! i)"
  "local_backward (fst (Value_backward limit g self) ! i) = local_backward (g ! i)"
  "label (fst (Value_backward limit g self) ! i) = label (g ! i)"
  by (simp_all add: Value_backward_def split: sum.split)

lemma Value_backward_length [simp]: "length (fst (Value_backward limit g self)) = length g"
  by (simp add: Value_backward_def split: sum.split)

text \<open>
  The rule of \<open>out\<close> adds to \<open>n.grad\<close> an amount that depends only on the values, on
  the closure and on \<open>out.grad\<close>.
\<close>

lemma call_backward_contribution:
  assumes len: "length h' = length h"
    and dat: "\<And>i. data (h' ! i) = data (h ! i)"
    and clo: "local_backward (h' ! out) = local_backward (h ! out)"
    and gro: "grad (h' ! out) = grad (h ! out)"
    and self: "out \<notin> captured (local_backward (h ! out))"
    and n: "n < length h"
  shows "\<exists>\<delta>. grad (fst (call_backward h out) ! n) = py_add (grad (h ! n)) \<delta>
           \<and> grad (fst (call_backward h' out) ! n) = py_add (grad (h' ! n)) \<delta>"
proof (cases "local_backward (h ! out)")
  case NoneBw
  then show ?thesis using clo by (intro exI [of _ "PFloat 0"]) (simp add: call_backward_def)
next
  case (AddBw s o')
  let ?d = "py_mul (PFloat 1) (grad (h ! out))"
  let ?\<delta> = "py_add (if n = s then ?d else PFloat 0) (if n = o' then ?d else PFloat 0)"
  have "s \<noteq> out" "o' \<noteq> out" using self AddBw by auto
  then show ?thesis using clo gro n len AddBw
    by (intro exI [of _ ?\<delta>])
       (simp add: call_backward_def Let_def grad_add_same py_add_assoc)
next
  case (MulBw s o')
  let ?\<delta> = "py_add (if n = s then py_mul (grad (h ! out)) (data (h ! o')) else PFloat 0)
                   (if n = o' then py_mul (grad (h ! out)) (data (h ! s)) else PFloat 0)"
  have "s \<noteq> out" "o' \<noteq> out" using self MulBw by auto
  then show ?thesis using clo gro n len MulBw dat
    by (intro exI [of _ ?\<delta>])
       (simp add: call_backward_def Let_def grad_add_same py_add_assoc)
next
  case (PowBw s p)
  let ?\<delta> = "case py_pow (data (h ! s)) (p - 1) of Inl e \<Rightarrow> PFloat 0
              | Inr v \<Rightarrow> if n = s then py_mul (grad (h ! out)) (py_mul (PFloat p) v) else PFloat 0"
  show ?thesis using clo gro n len PowBw dat
    by (intro exI [of _ ?\<delta>])
       (simp add: call_backward_def Let_def grad_add_same split: sum.split)
next
  case (ExpBw s)
  let ?\<delta> = "if n = s then py_mul (grad (h ! out)) (data (h ! out)) else PFloat 0"
  show ?thesis using clo gro n len ExpBw dat
    by (intro exI [of _ ?\<delta>])
       (simp add: call_backward_def Let_def grad_add_same split: sum.split)
next
  case (TanhBw s)
  let ?\<delta> = "case py_pow (data (h ! out)) 2 of Inl e \<Rightarrow> PFloat 0
              | Inr v \<Rightarrow> if n = s then py_mul (grad (h ! out)) (py_sub (PFloat 1) v) else PFloat 0"
  show ?thesis using clo gro n len TanhBw dat
    by (intro exI [of _ ?\<delta>])
       (simp add: call_backward_def Let_def grad_add_same split: sum.split)
next
  case (ReluBw s)
  let ?\<delta> = "case py_gt_zero (data (h ! s)) of Inl e \<Rightarrow> PFloat 0
              | Inr b \<Rightarrow> if n = s then (if b then grad (h ! out) else PFloat 0) else PFloat 0"
  show ?thesis using clo gro n len ReluBw dat
    by (intro exI [of _ ?\<delta>])
       (simp add: call_backward_def Let_def grad_add_same split: sum.split)
qed

text \<open>One pass over a heap \<open>h\<close> that has the closures of \<open>g\<close>.\<close>

lemma pass_root_grad:
  assumes wf: "well_formed g" "self < length g"
    and t: "topo_order limit g self = Inr t"
    and shape: "length h = length g" "\<And>i. local_backward (h ! i) = local_backward (g ! i)"
  shows "grad (fst (run_backward (rev t) (seed h self)) ! self) = PFloat 1"
proof -
  have "self \<notin> captured (local_backward (seed h self ! m))" if "m \<in> set (rev t)" for m
  proof -
    have "m \<in> reachable g self" using that topo_order_reachable [OF t] by auto
    then have "m \<le> self" by (rule reachable_le [OF wf])
    then show ?thesis using not_captured_self [OF wf(1), of m self] wf(2) shape(2) by simp
  qed
  then have "grad (fst (run_backward (rev t) (seed h self)) ! self) = grad (seed h self ! self)"
    by (intro run_backward_grad_frame) blast
  then show ?thesis using wf(2) shape(1) by (simp add: seed_same)
qed

lemma pass_direct_grad:
  assumes wf: "well_formed g" "self < length g"
    and t: "topo_order limit g self = Inr t" "topo_sorted g t" "set t = reachable g self"
           "last t = self" "t \<noteq> []"
    and shape: "\<And>i. local_backward (h ! i) = local_backward (g ! i)"
    and only: "\<forall>m \<in> reachable g self. n \<in> set (prev (g ! m)) \<longrightarrow> m = self"
  shows "grad (fst (run_backward (rev t) (seed h self)) ! n)
           = grad (fst (call_backward (seed h self) self) ! n)"
proof -
  have rt: "rev t = self # rev (butlast t)"
    using t(4,5) by (metis append_butlast_last_id rev.simps(2) rev_rev_ident rev_singleton_conv rev_append append_Cons append_Nil)
  let ?h1 = "fst (call_backward (seed h self) self)"
  have "n \<notin> captured (local_backward (?h1 ! m))" if m: "m \<in> set (rev (butlast t))" for m
  proof -
    have "distinct t" using t(2) by (simp add: topo_sorted_def)
    then have "distinct (butlast t @ [self])" using t(4,5) by (metis append_butlast_last_id)
    then have "m \<noteq> self" using m by auto
    have mr: "m \<in> reachable g self" using m t(3) by (auto dest: in_set_butlastD)
    then have "n \<notin> set (prev (g ! m))" using only \<open>m \<noteq> self\<close> by blast
    then show ?thesis using captured_reachable [OF wf mr] shape by auto
  qed
  then have "grad (fst (run_backward (rev (butlast t)) ?h1) ! n) = grad (?h1 ! n)"
    by (intro run_backward_grad_frame) blast
  then show ?thesis
    unfolding rt by (simp add: run_backward_Cons del: run_backward.simps split: sum.split)
qed

section \<open>Heaps built by the operations are well formed\<close>

lemma well_formed_Nil: "well_formed []"
  by (simp add: well_formed_def)

lemma well_formed_alloc:
  assumes "well_formed g" "distinct (prev v)" "\<forall>c \<in> set (prev v). c < length g"
    "captured (local_backward v) \<subseteq> set (prev v)"
  shows "well_formed (fst (alloc g v))"
  using assms by (auto simp: well_formed_def alloc_def nth_append less_Suc_eq)

lemma well_formed_Value_new: "well_formed g \<Longrightarrow> well_formed (fst (Value_new g d lbl))"
  unfolding Value_new_def by (rule well_formed_alloc) (simp_all add: Value_init_def)

lemma well_formed_promote:
  "well_formed g \<Longrightarrow> well_formed (fst (promote g other))"
  by (cases other) (simp_all add: well_formed_alloc Value_init_def)

lemma promote_bounds:
  assumes "a < length g" "case other of Node b \<Rightarrow> b < length g | Raw c \<Rightarrow> True"
  shows "a < length (fst (promote g other)) \<and> snd (promote g other) < length (fst (promote g other))"
  using assms by (cases other) (simp_all add: alloc_def)

lemma well_formed_Value_add:
  assumes "well_formed g" "a < length g" "case other of Node b \<Rightarrow> b < length g | Raw c \<Rightarrow> True"
  shows "well_formed (fst (Value_add g a other))"
proof -
  obtain g1 b where p: "promote g other = (g1, b)" by (cases "promote g other")
  have "well_formed g1" "a < length g1" "b < length g1"
    using well_formed_promote [OF assms(1), of other] promote_bounds [OF assms(2,3)] p by simp_all
  then show ?thesis
    unfolding Value_add_def p by (simp add: Let_def) (rule well_formed_alloc; auto simp: Value_init_def)
qed

lemma well_formed_Value_mul:
  assumes "well_formed g" "a < length g" "case other of Node b \<Rightarrow> b < length g | Raw c \<Rightarrow> True"
  shows "well_formed (fst (Value_mul g a other))"
proof -
  obtain g1 b where p: "promote g other = (g1, b)" by (cases "promote g other")
  have "well_formed g1" "a < length g1" "b < length g1"
    using well_formed_promote [OF assms(1), of other] promote_bounds [OF assms(2,3)] p by simp_all
  then show ?thesis
    unfolding Value_mul_def p by (simp add: Let_def) (rule well_formed_alloc; auto simp: Value_init_def)
qed

lemma well_formed_Value_pow:
  assumes "well_formed g" "a < length g"
  shows "well_formed (fst (Value_pow g a p))"
  using assms
  by (auto simp: Value_pow_def Let_def split: sum.split prod.split
           intro!: well_formed_alloc [unfolded alloc_def, simplified] simp: alloc_def Value_init_def)

lemma well_formed_Value_relu:
  assumes "well_formed g" "a < length g"
  shows "well_formed (fst (Value_relu g a))"
  using assms
  by (auto simp: Value_relu_def Let_def split: sum.split prod.split
           intro!: well_formed_alloc [unfolded alloc_def, simplified] simp: alloc_def Value_init_def)

lemma well_formed_Value_exp:
  assumes "well_formed g" "a < length g"
  shows "well_formed (fst (Value_exp g a))"
  using assms
  by (auto simp: Value_exp_def Let_def split: sum.split prod.split
           intro!: well_formed_alloc [unfolded alloc_def, simplified] simp: alloc_def Value_init_def)

lemma well_formed_Value_tanh:
  assumes "well_formed g" "a < length g"
  shows "well_formed (fst (Value_tanh g a))"
  using assms
  by (auto simp: Value_tanh_def Let_def split: sum.split prod.split
           intro!: well_formed_alloc [unfolded alloc_def, simplified] simp: alloc_def Value_init_def)

lemma example_heap_eq:
  "example_heap =
     [\<lparr>data = PFloat 3, grad = PFloat 0, prev = [], op = '''', local_backward = NoneBw, label = ''x''\<rparr>,
      \<lparr>data = PFloat 9, grad = PFloat 0, prev = [0], op = ''*'', local_backward = MulBw 0 0, label = ''''\<rparr>,
      \<lparr>data = PFloat 12, grad = PFloat 0, prev = [1, 0], op = ''+'', local_backward = AddBw 1 0, label = ''''\<rparr>,
      \<lparr>data = PFloat 5, grad = PFloat 0, prev = [], op = '''', local_backward = NoneBw, label = ''c''\<rparr>]"
  by (simp add: example_heap_def Value_new_def Value_mul_def Value_add_def Value_init_def alloc_def)

lemma well_formed_example: "well_formed example_heap"
  by (simp add: well_formed_def example_heap_eq less_Suc_eq numeral_eq_Suc all_conj_distrib)

lemma example_root: "2 < length example_heap"
  by (simp add: example_heap_eq)

lemma topo_example: "topo_order 3 example_heap 2 = Inr [0, 1, 2]"
  by (simp add: topo_order_def example_heap_eq numeral_eq_Suc)

lemma example_pass1:
  "fst (Value_backward 3 example_heap 2) =
     [\<lparr>data = PFloat 3, grad = PFloat 7, prev = [], op = '''', local_backward = NoneBw, label = ''x''\<rparr>,
      \<lparr>data = PFloat 9, grad = PFloat 1, prev = [0], op = ''*'', local_backward = MulBw 0 0, label = ''''\<rparr>,
      \<lparr>data = PFloat 12, grad = PFloat 1, prev = [1, 0], op = ''+'', local_backward = AddBw 1 0, label = ''''\<rparr>,
      \<lparr>data = PFloat 5, grad = PFloat 0, prev = [], op = '''', local_backward = NoneBw, label = ''c''\<rparr>]"
  unfolding Value_backward_def topo_example
  by (simp add: example_heap_eq seed_def call_backward_def grad_add_def)

section \<open>Operations\<close>

lemma Value_pow_zero:
  "to_complex (data (g ! b)) = 0 \<Longrightarrow> Value_pow g b (- 1) = (g, Inl ZeroDivisionError)"
  by (cases "data (g ! b)") (simp_all add: Value_pow_def)

text \<open>
  C5: dividing a node, or a plain number through the reflected form, by a node whose
  value is zero raises at the operation (Python's \<open>ZeroDivisionError\<close>, from
  \<open>other ** -1\<close>), and the heap is returned as it was: no node is created.
\<close>

theorem divide_by_zero_raises:
  assumes "to_complex (data (g ! b)) = 0"
  shows "binop_truediv g (Node a) (Node b) = (g, Inl ZeroDivisionError)
       \<and> binop_truediv g (Raw c) (Node b) = (g, Inl ZeroDivisionError)"
  using Value_pow_zero [OF assms] by (simp add: Value_rtruediv_def)

theorem divide_by_zero_raises_witness:
  "binop_truediv (fst (Value_new (fst (Value_new [] (PFloat 6) ''a'')) (PFloat 0) ''b'')) (Node 0) (Node 1)
     = (fst (Value_new (fst (Value_new [] (PFloat 6) ''a'')) (PFloat 0) ''b''), Inl ZeroDivisionError)
   \<and> binop_truediv (fst (Value_new (fst (Value_new [] (PFloat 6) ''a'')) (PFloat 0) ''b'')) (Raw 3) (Node 1)
     = (fst (Value_new (fst (Value_new [] (PFloat 6) ''a'')) (PFloat 0) ''b''), Inl ZeroDivisionError)"
  using divide_by_zero_raises [of "fst (Value_new (fst (Value_new [] (PFloat 6) ''a'')) (PFloat 0) ''b'')" 1 0 3]
  by (simp add: Value_new_def Value_init_def alloc_def)







text \<open>
  Subtraction with the plain number on the right succeeds: \<open>a - c\<close> is a new node with
  the value \<open>a.data - c\<close>.
\<close>

lemma subtract_raw_right:
  "a < length g \<Longrightarrow>
     \<exists>g' r. binop_sub g (Node a) (Raw c) = (g', Inr (Node r))
          \<and> data (g' ! r) = py_sub (data (g ! a)) (PFloat c)"
  by (cases "data (g ! a)") (simp_all add: Value_add_def Value_init_def alloc_def nth_append)

text \<open>
  C7, at the failing input: with the plain number on the left, \<open>c - a\<close> raises
  \<open>TypeError\<close> and creates nothing, since \<open>Value\<close> has no \<open>__rsub__\<close>.
\<close>

theorem reflected_subtract_raises:
  "binop_sub g (Raw c) (Node a) = (g, Inl TypeError)"
  by simp

text \<open>
  C8, as the code has it: \<open>_prev\<close> is a set of the children. It is empty for a leaf;
  for a binary operation it holds exactly the two operands, each once, so that \<open>x*x\<close>
  records the single entry \<open>x\<close>.
\<close>

theorem prev_is_a_set:
  "prev (Value_init d [] opn) = []
   \<and> set (prev (fst (Value_add g a (Node b)) ! snd (Value_add g a (Node b)))) = {a, b}
   \<and> distinct (prev (fst (Value_add g a (Node b)) ! snd (Value_add g a (Node b))))
   \<and> set (prev (fst (Value_mul g a (Node b)) ! snd (Value_mul g a (Node b)))) = {a, b}
   \<and> distinct (prev (fst (Value_mul g a (Node b)) ! snd (Value_mul g a (Node b))))
   \<and> prev (fst (Value_mul g a (Node a)) ! snd (Value_mul g a (Node a))) = [a]"
  by (simp add: Value_add_def Value_mul_def Value_init_def alloc_def)

text \<open>
  C8, as the claim states it, fails: the node built by \<open>x*x\<close> records one entry, not
  two.
\<close>

theorem operands_counterexample:
  "length (prev (fst (Value_mul (fst (Value_new [] (PFloat 3) ''x'')) 0 (Node 0))
             ! snd (Value_mul (fst (Value_new [] (PFloat 3) ''x'')) 0 (Node 0)))) = 1"
  by (simp add: Value_mul_def Value_new_def Value_init_def alloc_def)

section \<open>Small graphs\<close>

text \<open>
  C2: for a fresh leaf \<open>x\<close>, after \<open>y = x*x\<close> and \<open>y.backward()\<close> the gradient of \<open>x\<close> is
  \<open>2 * x.data\<close>: both uses of \<open>x\<close> have added their contribution.
\<close>

theorem accumulation_law:
  assumes "Value_new g d lbl = (g1, x)" "Value_mul g1 x (Node x) = (g2, y)" "2 \<le> limit"
  shows "\<exists>g3. Value_backward limit g2 y = (g3, Inr ())
            \<and> grad (g3 ! x) = py_mul (PFloat 2) (data (g3 ! x))"
proof -
  obtain k where k: "limit = Suc (Suc k)" using assms(3) by (metis add_2_eq_Suc le_Suc_ex)
  have x: "x = length g" and g1: "g1 = g @ [(Value_init d [] '''')\<lparr>label := lbl\<rparr>]"
    using assms(1) by (auto simp: Value_new_def alloc_def)
  have y: "y = Suc (length g)"
    and g2: "g2 = g1 @ [(Value_init (py_mul d d) [x, x] ''*'')\<lparr>local_backward := MulBw x x\<rparr>]"
    using assms(2) by (auto simp: Value_mul_def alloc_def x g1 Value_init_def)
  have t: "topo_order limit g2 y = Inr [x, y]"
    by (simp add: topo_order_def k g2 g1 x y Value_init_def nth_append)
  have bw: "Value_backward limit g2 y = run_backward [y, x] (seed g2 y)"
    by (simp add: Value_backward_def t)
  show ?thesis
    unfolding bw
    by (simp add: seed_def call_backward_def grad_add_def g2 g1 x y Value_init_def nth_append
        list_update_append py_double)
qed

theorem accumulation_law_witness:
  "\<exists>g3. Value_backward 2 (fst (Value_mul (fst (Value_new [] (PFloat 3) ''x'')) 0 (Node 0))) 1 = (g3, Inr ())
      \<and> grad (g3 ! 0) = py_mul (PFloat 2) (data (g3 ! 0))"
  using accumulation_law [of "[]" "PFloat 3" "''x''" "fst (Value_new [] (PFloat 3) ''x'')" 0
      "fst (Value_mul (fst (Value_new [] (PFloat 3) ''x'')) 0 (Node 0))" 1 2]
  by (simp add: Value_new_def Value_mul_def alloc_def)

text \<open>
  C9: for a fresh leaf \<open>a\<close> with a real value, after \<open>relu(a).backward()\<close> the gradient of
  \<open>a\<close> is 0 when \<open>a.data \<le> 0\<close> and the seed 1.0 when \<open>a.data > 0\<close>.
\<close>

theorem relu_subgradient:
  assumes "Value_new g (PFloat v) lbl = (g1, a)" "2 \<le> limit"
  shows "\<exists>g2 out g3. Value_relu g1 a = (g2, Inr out)
            \<and> Value_backward limit g2 out = (g3, Inr ())
            \<and> grad (g3 ! a) = PFloat (if v > 0 then 1 else 0)"
proof -
  obtain k where k: "limit = Suc (Suc k)" using assms(2) by (metis add_2_eq_Suc le_Suc_ex)
  have a: "a = length g" and g1: "g1 = g @ [(Value_init (PFloat v) [] '''')\<lparr>label := lbl\<rparr>]"
    using assms(1) by (auto simp: Value_new_def alloc_def)
  define g2 where
    "g2 = g1 @ [(Value_init (PFloat (max 0 v)) [a] ''relu'')\<lparr>local_backward := ReluBw a\<rparr>]"
  have relu: "Value_relu g1 a = (g2, Inr (Suc (length g)))"
    by (simp add: Value_relu_def alloc_def g1 a g2_def Value_init_def)
  have t: "topo_order limit g2 (Suc (length g)) = Inr [a, Suc (length g)]"
    by (simp add: topo_order_def k g2_def g1 a Value_init_def nth_append)
  have bw: "Value_backward limit g2 (Suc (length g))
              = run_backward [Suc (length g), a] (seed g2 (Suc (length g)))"
    by (simp add: Value_backward_def t)
  have "\<exists>g3. Value_backward limit g2 (Suc (length g)) = (g3, Inr ())
            \<and> grad (g3 ! a) = PFloat (if v > 0 then 1 else 0)"
    unfolding bw
    by (simp add: seed_def call_backward_def grad_add_def g2_def g1 a Value_init_def nth_append
        list_update_append)
  with relu show ?thesis by blast
qed

theorem relu_subgradient_witness:
  "(\<exists>g2 out g3. Value_relu (fst (Value_new [] (PFloat (- 1)) ''a'')) 0 = (g2, Inr out)
            \<and> Value_backward 2 g2 out = (g3, Inr ())
            \<and> grad (g3 ! 0) = PFloat 0)
   \<and> (\<exists>g2 out g3. Value_relu (fst (Value_new [] (PFloat 2) ''a'')) 0 = (g2, Inr out)
            \<and> Value_backward 2 g2 out = (g3, Inr ())
            \<and> grad (g3 ! 0) = PFloat 1)"
  using relu_subgradient [of "[]" "- 1" "''a''" "fst (Value_new [] (PFloat (- 1)) ''a'')" 0 2]
    relu_subgradient [of "[]" 2 "''a''" "fst (Value_new [] (PFloat 2) ''a'')" 0 2]
  by (simp add: Value_new_def alloc_def)

section \<open>The backward pass on a graph\<close>

text \<open>
  C1: on a well-formed heap, with a recursion allowance above the index of the root
  (enough for the nested calls of \<open>build_topo\<close> on every such heap), the list
  \<open>reversed(topo)\<close> that \<open>backward\<close> walks holds exactly the nodes reachable from the
  root, each once, and every node stands in it after all the nodes that have it as an
  operand: its rule is called after theirs. The gradient a node has when its rule is
  called is the gradient it has when \<open>backward\<close> ends.
\<close>

theorem backward_order:
  assumes "well_formed g" "self < length g" "self < limit"
  shows "\<exists>t. topo_order limit g self = Inr t
     \<and> Value_backward limit g self = run_backward (rev t) (seed g self)
     \<and> set t = reachable g self \<and> distinct t
     \<and> (\<forall>i < length t. \<forall>j < length t.
            rev t ! i \<in> set (prev (g ! (rev t ! j))) \<longrightarrow> j < i)
     \<and> (\<forall>k < length t.
            grad (fst (run_backward (take k (rev t)) (seed g self)) ! (rev t ! k))
              = grad (fst (Value_backward limit g self) ! (rev t ! k)))"
proof -
  from topo_order_correct [OF assms] obtain t where
    t: "topo_order limit g self = Inr t" "topo_sorted g t" "set t = reachable g self" by blast
  have dist: "distinct t" using t(2) by (simp add: topo_sorted_def)
  have order: "j < i" if "i < length t" "j < length t"
      "rev t ! i \<in> set (prev (g ! (rev t ! j)))" for i j
  proof -
    have "t ! (length t - Suc i) \<in> set (prev (g ! (t ! (length t - Suc j))))"
      using that by (simp add: rev_nth)
    moreover have "length t - Suc i < length t" "length t - Suc j < length t"
      using that by simp_all
    ultimately have "length t - Suc i < length t - Suc j"
      using topo_sorted_order [OF t(2)] by blast
    then show ?thesis using that by simp
  qed
  have final: "grad (fst (run_backward (take k (rev t)) (seed g self)) ! (rev t ! k))
              = grad (fst (Value_backward limit g self) ! (rev t ! k))" if k: "k < length t" for k
  proof -
    let ?o = "rev t" and ?h = "seed g self"
    let ?h1 = "fst (run_backward (take k ?o) ?h)"
    have bw: "Value_backward limit g self = run_backward (take k ?o @ drop k ?o) ?h"
      by (simp add: Value_backward_def t(1))
    show ?thesis
    proof (cases "snd (run_backward (take k ?o) ?h)")
      case (Inl e)
      then show ?thesis unfolding bw run_backward_append by simp
    next
      case (Inr u)
      have "?o ! k \<notin> captured (local_backward (?h1 ! m))" if m: "m \<in> set (drop k ?o)" for m
      proof
        assume c: "?o ! k \<in> captured (local_backward (?h1 ! m))"
        from m obtain i where i: "i < length t - k" "m = ?o ! (k + i)"
          by (auto simp: in_set_conv_nth)
        define j where "j = k + i"
        have j: "k \<le> j" "j < length t" "?o ! j = m"
          using i by (simp_all add: j_def)
        have "m \<in> set ?o" using m by (rule in_set_dropD)
        then have "m \<in> reachable g self" using t(3) by simp
        from captured_reachable [OF assms(1,2) this] c
        have "?o ! k \<in> set (prev (g ! (?o ! j)))" using j(3) by auto
        from order [OF k j(2) this] j(1) show False by simp
      qed
      then have "grad (fst (run_backward (drop k ?o) ?h1) ! (?o ! k)) = grad (?h1 ! (?o ! k))"
        by (intro run_backward_grad_frame) blast
      then show ?thesis unfolding bw run_backward_append using Inr by simp
    qed
  qed
  have "Value_backward limit g self = run_backward (rev t) (seed g self)"
    by (simp add: Value_backward_def t(1))
  then show ?thesis using t(1,3) dist order final by blast
qed

theorem backward_order_witness:
  "Value_backward 3 example_heap 2 = run_backward [2, 1, 0] (seed example_heap 2)
   \<and> set [0, 1, 2] = reachable example_heap 2
   \<and> grad (fst (run_backward [2] (seed example_heap 2)) ! 1)
         = grad (fst (Value_backward 3 example_heap 2) ! 1)
   \<and> grad (fst (run_backward [2, 1] (seed example_heap 2)) ! 0)
         = grad (fst (Value_backward 3 example_heap 2) ! 0)"
proof -
  from backward_order [OF well_formed_example example_root, of 3]
  have bw: "Value_backward 3 example_heap 2 = run_backward [2, 1, 0] (seed example_heap 2)"
    and nodes: "set [0, 1, 2] = reachable example_heap 2"
    and final: "\<forall>k < 3.
          grad (fst (run_backward (take k [2, 1, 0]) (seed example_heap 2)) ! ([2, 1, 0] ! k))
            = grad (fst (Value_backward 3 example_heap 2) ! ([2, 1, 0] ! k))"
    by (simp_all add: topo_example)
  from final [rule_format, of 1] final [rule_format, of 2] bw nodes show ?thesis
    by (simp add: numeral_2_eq_2)
qed

text \<open>
  C3, as the code has it: after a second \<open>backward\<close> on the same root with no reset, the
  gradient of the root is the seed 1.0 again, as after the first call, and a node that
  started at 0.0 and is an operand of no reachable node but the root has twice the
  gradient it had after the first call.
\<close>

theorem second_backward:
  assumes "well_formed g" "self < length g" "self < limit"
  shows "let g1 = fst (Value_backward limit g self); g2 = fst (Value_backward limit g1 self) in
           grad (g1 ! self) = PFloat 1 \<and> grad (g2 ! self) = PFloat 1
         \<and> (\<forall>n < length g. n \<noteq> self \<and> grad (g ! n) = PFloat 0
               \<and> (\<forall>m \<in> reachable g self. n \<in> set (prev (g ! m)) \<longrightarrow> m = self)
             \<longrightarrow> grad (g2 ! n) = py_mul (PFloat 2) (grad (g1 ! n)))"
proof -
  define g1 where "g1 = fst (Value_backward limit g self)"
  define g2 where "g2 = fst (Value_backward limit g1 self)"
  from topo_order_correct [OF assms] obtain t where
    t: "topo_order limit g self = Inr t" "topo_sorted g t" "set t = reachable g self"
       "last t = self" "t \<noteq> []" by blast
  have t1: "topo_order limit g1 self = Inr t"
    using topo_order_prev_only [of g1 g limit self] t(1) by (simp add: g1_def)
  have g1: "g1 = fst (run_backward (rev t) (seed g self))"
    by (simp add: g1_def Value_backward_def t(1))
  have g2: "g2 = fst (run_backward (rev t) (seed g1 self))"
    by (simp add: g2_def Value_backward_def t1)
  have len1: "length g1 = length g" and clo1: "\<And>i. local_backward (g1 ! i) = local_backward (g ! i)"
    and dat1: "\<And>i. data (g1 ! i) = data (g ! i)"
    by (simp_all add: g1_def)
  have root1: "grad (g1 ! self) = PFloat 1"
    unfolding g1 by (rule pass_root_grad [OF assms(1,2) t(1)]) simp_all
  have root2: "grad (g2 ! self) = PFloat 1"
    unfolding g2 by (rule pass_root_grad [OF assms(1,2) t(1) len1 clo1])
  have double: "grad (g2 ! n) = py_mul (PFloat 2) (grad (g1 ! n))"
    if n: "n < length g" "n \<noteq> self" "grad (g ! n) = PFloat 0"
       "\<forall>m \<in> reachable g self. n \<in> set (prev (g ! m)) \<longrightarrow> m = self" for n
  proof -
    have a1: "grad (g1 ! n) = grad (fst (call_backward (seed g self) self) ! n)"
      unfolding g1 by (rule pass_direct_grad [OF assms(1,2) t _ n(4)]) simp
    have a2: "grad (g2 ! n) = grad (fst (call_backward (seed g1 self) self) ! n)"
      unfolding g2 by (rule pass_direct_grad [OF assms(1,2) t clo1 n(4)])
    have "self \<notin> captured (local_backward (seed g self ! self))"
      using not_captured_self [OF assms(1,2), of self] by simp
    moreover have "grad (seed g1 self ! self) = grad (seed g self ! self)"
      using assms(2) len1 by (simp add: seed_same)
    ultimately obtain \<delta> where
      d: "grad (fst (call_backward (seed g self) self) ! n) = py_add (grad (seed g self ! n)) \<delta>"
         "grad (fst (call_backward (seed g1 self) self) ! n) = py_add (grad (seed g1 self ! n)) \<delta>"
      using call_backward_contribution [of "seed g1 self" "seed g self" self n] n(1) len1 dat1 clo1
      by auto
    have "grad (g1 ! n) = \<delta>" using a1 d(1) n(2,3) by simp
    moreover have "grad (g2 ! n) = py_add (grad (g1 ! n)) \<delta>" using a2 d(2) n(2) by simp
    ultimately show ?thesis by (simp add: py_add_self)
  qed
  show ?thesis
    unfolding Let_def g1_def [symmetric] g2_def [symmetric] using root1 root2 double by blast
qed

theorem second_backward_witness:
  "grad (fst (Value_backward 3 example_heap 2) ! 2) = PFloat 1
   \<and> grad (fst (Value_backward 3 (fst (Value_backward 3 example_heap 2)) 2) ! 2) = PFloat 1
   \<and> grad (fst (Value_backward 3 (fst (Value_backward 3 example_heap 2)) 2) ! 1)
       = py_mul (PFloat 2) (grad (fst (Value_backward 3 example_heap 2) ! 1))"
proof -
  have only: "\<forall>m \<in> reachable example_heap 2. 1 \<in> set (prev (example_heap ! m)) \<longrightarrow> m = 2"
  proof (intro ballI impI)
    fix m assume mr: "m \<in> reachable example_heap 2" and p: "1 \<in> set (prev (example_heap ! m))"
    have "m \<le> 2" by (rule reachable_le [OF well_formed_example example_root mr])
    then have "m = 0 \<or> m = 1 \<or> m = 2" by auto
    with p show "m = 2" by (auto simp: example_heap_eq)
  qed
  have "1 < length example_heap" "grad (example_heap ! 1) = PFloat 0"
    by (simp_all add: example_heap_eq)
  with only second_backward [OF well_formed_example example_root, of 3] show ?thesis
    by (simp add: Let_def)
qed

text \<open>
  C3, as the claim states it, fails on the example: the gradient of the root \<open>z\<close> is 1.0
  after both calls, and that of the leaf \<open>x\<close> goes from 7.0 to 20.0.
\<close>

theorem second_backward_counterexample:
  "grad (fst (Value_backward 3 example_heap 2) ! 0) = PFloat 7
   \<and> grad (fst (Value_backward 3 (fst (Value_backward 3 example_heap 2)) 2) ! 0) = PFloat 20
   \<and> grad (fst (Value_backward 3 example_heap 2) ! 2) = PFloat 1
   \<and> grad (fst (Value_backward 3 (fst (Value_backward 3 example_heap 2)) 2) ! 2) = PFloat 1"
proof -
  have t: "topo_order 3 (fst (Value_backward 3 example_heap 2)) 2 = Inr [0, 1, 2]"
    using topo_order_prev_only [of "fst (Value_backward 3 example_heap 2)" example_heap 3 2]
    by (simp add: topo_example)
  show ?thesis
    unfolding Value_backward_def [of 3 "fst (Value_backward 3 example_heap 2)"] t
    unfolding example_pass1
    by (simp add: seed_def call_backward_def grad_add_def)
qed

text \<open>
  C4, as the code has it: the list \<open>topo\<close>, before it is reversed, holds exactly the
  nodes reachable from the root, each once, and every node stands in it after all of its
  operands, hence before all the nodes that have it as an operand.
\<close>

theorem topo_operands_first:
  assumes "well_formed g" "self < length g" "self < limit"
  shows "\<exists>t. topo_order limit g self = Inr t \<and> distinct t \<and> set t = reachable g self
           \<and> (\<forall>i < length t. \<forall>j < length t. t ! i \<in> set (prev (g ! (t ! j))) \<longrightarrow> i < j)"
proof -
  from topo_order_correct [OF assms] obtain t where
    t: "topo_order limit g self = Inr t" "topo_sorted g t" "set t = reachable g self" by blast
  from t(2) have "distinct t" by (simp add: topo_sorted_def)
  with t topo_sorted_order [OF t(2)] show ?thesis by blast
qed

theorem topo_operands_first_witness:
  "topo_order 3 example_heap 2 = Inr [0, 1, 2] \<and> set [0, 1, 2] = reachable example_heap 2"
  using topo_operands_first [OF well_formed_example example_root, of 3]
  by (simp add: topo_example)

text \<open>
  C4, as the claim states it, fails on the example: \<open>topo\<close> is \<open>[x, y, z]\<close>, where \<open>x\<close>
  is an operand of \<open>y\<close> and stands before it.
\<close>

theorem topo_counterexample:
  "topo_order 3 example_heap 2 = Inr [0, 1, 2] \<and> 0 \<in> set (prev (example_heap ! 1))"
  by (simp add: topo_order_def example_heap_eq numeral_eq_Suc)

text \<open>
  C10: \<open>backward\<close> changes nothing but gradients: the heap keeps its length, every node
  keeps its value, operands, operation tag, closure and label, and a node that is not
  reachable from the root keeps its gradient. This holds whether the pass returns or
  raises.
\<close>

theorem backward_frame:
  assumes "well_formed g" "self < length g"
  shows "length (fst (Value_backward limit g self)) = length g
     \<and> (\<forall>i. data (fst (Value_backward limit g self) ! i) = data (g ! i)
           \<and> prev (fst (Value_backward limit g self) ! i) = prev (g ! i)
           \<and> op (fst (Value_backward limit g self) ! i) = op (g ! i)
           \<and> local_backward (fst (Value_backward limit g self) ! i) = local_backward (g ! i)
           \<and> label (fst (Value_backward limit g self) ! i) = label (g ! i))
     \<and> (\<forall>i. i \<notin> reachable g self \<longrightarrow>
            grad (fst (Value_backward limit g self) ! i) = grad (g ! i))"
proof (cases "topo_order limit g self")
  case (Inl e)
  then show ?thesis by (simp add: Value_backward_def)
next
  case (Inr t)
  have bw: "Value_backward limit g self = run_backward (rev t) (seed g self)"
    by (simp add: Value_backward_def Inr)
  have "grad (fst (run_backward (rev t) (seed g self)) ! i) = grad (g ! i)"
    if i: "i \<notin> reachable g self" for i
  proof -
    have "i \<notin> captured (local_backward (seed g self ! m))" if "m \<in> set (rev t)" for m
    proof -
      have m: "m \<in> reachable g self" using that topo_order_reachable [OF Inr] by auto
      from captured_reachable [OF assms m] reachable_step [OF m] i show ?thesis by auto
    qed
    then have "grad (fst (run_backward (rev t) (seed g self)) ! i) = grad (seed g self ! i)"
      by (intro run_backward_grad_frame) blast
    moreover have "i \<noteq> self" using i reachable_self by blast
    ultimately show ?thesis by simp
  qed
  then show ?thesis unfolding bw by simp
qed

theorem backward_frame_witness:
  "length (fst (Value_backward 3 example_heap 2)) = length example_heap
   \<and> data (fst (Value_backward 3 example_heap 2) ! 0) = data (example_heap ! 0)
   \<and> prev (fst (Value_backward 3 example_heap 2) ! 2) = prev (example_heap ! 2)
   \<and> grad (fst (Value_backward 3 example_heap 2) ! 3) = grad (example_heap ! 3)"
proof -
  have "3 \<notin> reachable example_heap 2"
    using reachable_le [OF well_formed_example example_root, of 3] by auto
  then show ?thesis
    using backward_frame [OF well_formed_example example_root, of 3] by simp
qed

end
